theory Spec2Isabelle
  imports
    Complex_Main
    "HOL-Library.AList"
    "HOL-Library.Product_Lexorder"
begin

section \<open>Conventions of the embedding\<close>

text \<open>
  The deck builder \<^verbatim>\<open>app.py\<close> is embedded function by function.

  \<^item> A Python \<^verbatim>\<open>str\<close> is a list of Unicode code points (\<open>nat list\<close>), so that
    \<^verbatim>\<open>len\<close> counts what Python counts and the bullet and dash characters of the source
    are single characters.
  \<^item> A Python \<^verbatim>\<open>int\<close> is an \<open>int\<close>.
  \<^item> A Python \<^verbatim>\<open>float\<close> is an exact rational number (\<open>rat\<close>): the literals
    \<^verbatim>\<open>0.27\<close>, \<^verbatim>\<open>1.35\<close>, ... denote \<open>27/100\<close>, \<open>135/100\<close>, ... and
    \<^verbatim>\<open>*\<close>, \<^verbatim>\<open>/\<close>, \<^verbatim>\<open>-\<close> are exact. The rounding of binary floating point is not
    part of the model.
  \<^item> A \<^verbatim>\<open>dict\<close> is an association list in insertion order, its keys distinct.
  \<^item> An exception is a value \<open>Inl e\<close> of the result type \<open>py_error + 'a\<close>.
\<close>

type_synonym pystr = "nat list"

datatype py_error = ZeroDivisionError | KeyError

definition str :: "string \<Rightarrow> pystr" where
  "str s = map of_char s"

subsection \<open>Built-ins of the language\<close>


text \<open>\<^verbatim>\<open>round(x)\<close> with one argument rounds to the nearest integer, a tie to the even one.\<close>

definition py_round :: "rat \<Rightarrow> int" where
  "py_round x =
     (let f = \<lfloor>x\<rfloor>; d = x - of_int f
      in if d < 1 / 2 then f
         else if 1 / 2 < d then f + 1
         else if even f then f else f + 1)"

text \<open>
  The characters that \<^verbatim>\<open>str.split()\<close> and \<^verbatim>\<open>str.strip()\<close> treat as white space:
  U+0009..U+000D, U+001C..U+0020, U+0085, U+00A0, U+1680, U+2000..U+200A, U+2028, U+2029,
  U+202F, U+205F and U+3000.
\<close>

definition is_space :: "nat \<Rightarrow> bool" where
  "is_space c \<longleftrightarrow>
     (9 \<le> c \<and> c \<le> 13) \<or> (28 \<le> c \<and> c \<le> 32) \<or> c = 133 \<or> c = 160 \<or> c = 5760 \<or>
     (8192 \<le> c \<and> c \<le> 8202) \<or> c = 8232 \<or> c = 8233 \<or> c = 8239 \<or> c = 8287 \<or> c = 12288"

text \<open>
  \<^verbatim>\<open>s.split()\<close>: the maximal runs of characters that are not white space, in order.
  \<open>split_from cur s\<close> reads \<open>s\<close> with the word \<open>cur\<close> under construction.
\<close>

fun split_from :: "pystr \<Rightarrow> pystr \<Rightarrow> pystr list" where
  "split_from cur [] = (if cur = [] then [] else [cur])"
| "split_from cur (c # cs) =
     (if is_space c
      then (if cur = [] then split_from [] cs else cur # split_from [] cs)
      else split_from (cur @ [c]) cs)"

definition split :: "pystr \<Rightarrow> pystr list" where
  "split s = split_from [] s"

text \<open>\<^verbatim>\<open>s.strip()\<close>: white space removed at both ends.\<close>

definition strip :: "pystr \<Rightarrow> pystr" where
  "strip s = rev (dropWhile is_space (rev (dropWhile is_space s)))"

text \<open>\<^verbatim>\<open>" ".join(xs)\<close>.\<close>

fun join_space :: "pystr list \<Rightarrow> pystr" where
  "join_space [] = []"
| "join_space [x] = x"
| "join_space (x # y # ys) = x @ [32] @ join_space (y # ys)"

text \<open>
  \<^verbatim>\<open>xs[:n]\<close> for an integer \<open>n\<close>: the first \<open>n\<close> elements, and for a negative \<open>n\<close> all
  but the last \<open>-n\<close>.
\<close>

definition slice_to :: "int \<Rightarrow> 'a list \<Rightarrow> 'a list" where
  "slice_to n xs = (if 0 \<le> n then take (nat n) xs else take (length xs - nat (- n)) xs)"

section \<open>Wrapping helpers\<close>

text \<open>
  \<^verbatim>\<open>wrap_chars(text, max_chars)\<close>, lines 49 to 62. \<open>wrap_chars_loop\<close> is the
  \<^verbatim>\<open>for w in words[1:]\<close> loop with its two variables \<^verbatim>\<open>lines\<close> and \<^verbatim>\<open>cur\<close>,
  followed by the final \<^verbatim>\<open>lines.append(cur)\<close>. The argument is a \<^verbatim>\<open>str\<close>, on which
  \<^verbatim>\<open>text or ""\<close> is the identity.
\<close>

fun wrap_chars_loop :: "int \<Rightarrow> pystr list \<Rightarrow> pystr \<Rightarrow> pystr list \<Rightarrow> pystr list" where
  "wrap_chars_loop max_chars lines cur [] = lines @ [cur]"
| "wrap_chars_loop max_chars lines cur (w # ws) =
     (if int (length cur) + 1 + int (length w) \<le> max_chars
      then wrap_chars_loop max_chars lines (cur @ [32] @ w) ws
      else wrap_chars_loop max_chars (lines @ [cur]) w ws)"

definition wrap_chars :: "pystr \<Rightarrow> int \<Rightarrow> pystr list" where
  "wrap_chars text max_chars =
     (case split text of
        [] \<Rightarrow> [[]]
      | w # ws \<Rightarrow> wrap_chars_loop max_chars [] w ws)"

text \<open>
  \<^verbatim>\<open>wrap_by_wordcount(text, max_words)\<close>, lines 64 to 78. \<open>wrap_by_wordcount_loop\<close> is
  the \<^verbatim>\<open>for w in words\<close> loop with \<^verbatim>\<open>lines\<close> and \<^verbatim>\<open>bucket\<close>, followed by the
  final flush of a non-empty bucket.
\<close>

fun wrap_by_wordcount_loop :: "int \<Rightarrow> pystr list \<Rightarrow> pystr list \<Rightarrow> pystr list \<Rightarrow> pystr list" where
  "wrap_by_wordcount_loop max_words lines bucket [] =
     (if bucket \<noteq> [] then lines @ [join_space bucket] else lines)"
| "wrap_by_wordcount_loop max_words lines bucket (w # ws) =
     (if int (length bucket) < max_words
      then wrap_by_wordcount_loop max_words lines (bucket @ [w]) ws
      else wrap_by_wordcount_loop max_words (lines @ [join_space bucket]) [w] ws)"

definition wrap_by_wordcount :: "pystr \<Rightarrow> int \<Rightarrow> pystr list" where
  "wrap_by_wordcount text max_words =
     (case split text of
        [] \<Rightarrow> [[]]
      | w # ws \<Rightarrow> wrap_by_wordcount_loop max_words [] [] (w # ws))"

section \<open>Layout of text blocks\<close>












section \<open>The slides of \<^verbatim>\<open>build_ppt\<close> that place content by hand\<close>








section \<open>The quota allocator\<close>

text \<open>
  \<^verbatim>\<open>target_counts(total, ratios)\<close>, lines 195 to 202, with \<open>tot\<close> for the
  argument \<^verbatim>\<open>total\<close>. The dictionaries \<^verbatim>\<open>raw\<close> and
  \<^verbatim>\<open>floors\<close> have the keys of \<^verbatim>\<open>ratios\<close> in the same order. \<^verbatim>\<open>sorted(...,
  reverse=True)\<close> on pairs that differ pairwise is the ascending sort, reversed; Python
  orders tuples lexicographically, as \<open>Product_Lexorder\<close> does.

  \<open>distribute\<close> is the loop of lines 200 and 201 over the indices of
  \<^verbatim>\<open>range(remainder)\<close>: \<^verbatim>\<open>i % len(fracs)\<close> raises \<open>ZeroDivisionError\<close> when
  \<^verbatim>\<open>fracs\<close> is empty, and \<^verbatim>\<open>floors[k] += 1\<close> raises \<open>KeyError\<close> on a missing key.
\<close>

fun distribute ::
  "(rat \<times> 'k) list \<Rightarrow> nat list \<Rightarrow> ('k \<times> int) list \<Rightarrow> py_error + ('k \<times> int) list" where
  "distribute fracs [] floors = Inr floors"
| "distribute fracs (i # is) floors =
     (if fracs = [] then Inl ZeroDivisionError
      else
        let k = snd (fracs ! (i mod length fracs))
        in case map_of floors k of
             None \<Rightarrow> Inl KeyError
           | Some c \<Rightarrow> distribute fracs is (AList.update k (c + 1) floors))"

definition raw_of :: "int \<Rightarrow> ('k \<times> rat) list \<Rightarrow> ('k \<times> rat) list" where
  "raw_of tot ratios = map (\<lambda>(k, v). (k, of_int tot * v)) ratios"

definition floors_of :: "('k \<times> rat) list \<Rightarrow> ('k \<times> int) list" where
  "floors_of raw = map (\<lambda>(k, x). (k, \<lfloor>x\<rfloor>)) raw"

definition fracs_of :: "('k::linorder \<times> rat) list \<Rightarrow> (rat \<times> 'k) list" where
  "fracs_of raw = rev (sort (map (\<lambda>(k, x). (x - of_int \<lfloor>x\<rfloor>, k)) raw))"

definition target_counts :: "int \<Rightarrow> ('k::linorder \<times> rat) list \<Rightarrow> py_error + ('k \<times> int) list" where
  "target_counts tot ratios =
     (let raw = raw_of tot ratios;
          floors = floors_of raw;
          remainder = tot - sum_list (map snd floors);
          fracs = fracs_of raw
      in distribute fracs [0..<nat remainder] floors)"

section \<open>The build: pool, kept total, targets, selection\<close>

text \<open>
  The four categories. The source names them by the strings \<^verbatim>\<open>"WHAT"\<close>,
  \<^verbatim>\<open>"HOW"\<close>, \<^verbatim>\<open>"SURE"\<close> and \<^verbatim>\<open>"CYDI"\<close>; the order of the type is the order of
  these strings in Python, \<^verbatim>\<open>"CYDI" < "HOW" < "SURE" < "WHAT"\<close>, which is what
  \<^verbatim>\<open>sorted\<close> falls back on when two fractional parts are equal.
\<close>

datatype category = WHAT | HOW | SURE | CYDI

fun category_rank :: "category \<Rightarrow> nat" where
  "category_rank CYDI = 0"
| "category_rank HOW = 1"
| "category_rank SURE = 2"
| "category_rank WHAT = 3"

instantiation category :: linorder
begin

definition less_eq_category :: "category \<Rightarrow> category \<Rightarrow> bool" where
  "less_eq_category a b \<longleftrightarrow> category_rank a \<le> category_rank b"

definition less_category :: "category \<Rightarrow> category \<Rightarrow> bool" where
  "less_category a b \<longleftrightarrow> category_rank a < category_rank b"

instance
proof
  fix x y z :: category
  show "(x < y) = (x \<le> y \<and> \<not> y \<le> x)"
    by (auto simp: less_eq_category_def less_category_def)
  show "x \<le> x"
    by (simp add: less_eq_category_def)
  show "x \<le> y \<Longrightarrow> y \<le> z \<Longrightarrow> x \<le> z"
    by (simp add: less_eq_category_def)
  show "x \<le> y \<Longrightarrow> y \<le> x \<Longrightarrow> x = y"
    by (cases x; cases y) (simp_all add: less_eq_category_def)
  show "x \<le> y \<or> y \<le> x"
    by (auto simp: less_eq_category_def)
qed

end

text \<open>A row of an editor, as \<^verbatim>\<open>make_editor\<close> returns it (line 285).\<close>

record item =
  item_text :: pystr
  item_priority :: int
  item_link :: pystr

text \<open>An element of \<^verbatim>\<open>all_bullets\<close> (lines 483 to 489).\<close>

record bullet =
  text_of :: pystr
  priority :: int
  link :: pystr
  category :: category
  idx :: nat

text \<open>
  Step 1, lines 472 to 489: the inner loop over one editor's items and the outer loop
  over the four editors. \<^verbatim>\<open>int(b["priority"] or 0)\<close> is the priority itself.
\<close>

definition collect :: "item list \<Rightarrow> category \<Rightarrow> bool \<Rightarrow> bullet list" where
  "collect items cat linkflag =
     map (\<lambda>(i, b). \<lparr>text_of = strip (item_text b), priority = item_priority b,
                     link = (if linkflag then strip (item_link b) else []),
                     category = cat, idx = i\<rparr>)
       (zip [0..<length items] items)"

definition all_bullets :: "item list \<Rightarrow> item list \<Rightarrow> item list \<Rightarrow> item list \<Rightarrow> bullet list" where
  "all_bullets what_items how_items sure_items cydi_items =
     collect what_items WHAT False @ collect how_items HOW False @
     collect sure_items SURE True @ collect cydi_items CYDI False"

text \<open>Step 2, line 492.\<close>

definition pool_of :: "bullet list \<Rightarrow> bullet list" where
  "pool_of bullets = filter (\<lambda>x. text_of x \<noteq> [] \<and> 0 < priority x) bullets"

text \<open>Step 3, lines 495 and 496, as a function of \<^verbatim>\<open>len(pool)\<close>.\<close>

definition kept_total :: "nat \<Rightarrow> int" where
  "kept_total n = (let keep_fraction = 50 / 100 in max 1 (py_round (of_nat n * keep_fraction)))"

text \<open>Step 4, line 499.\<close>

definition WHAC_RATIOS :: "(category \<times> rat) list" where
  "WHAC_RATIOS = [(WHAT, 50 / 100), (HOW, 27 / 100), (SURE, 15 / 100), (CYDI, 8 / 100)]"

text \<open>
  Step 5, lines 502 to 509: the two tiers of a category, each sorted by \<^verbatim>\<open>idx\<close> with
  the stable sort of \<^verbatim>\<open>list.sort\<close>.
\<close>

definition tier_H :: "bullet list \<Rightarrow> category \<Rightarrow> bullet list" where
  "tier_H pool c = sort_key idx (filter (\<lambda>b. category b = c \<and> 5 \<le> priority b) pool)"

definition tier_M :: "bullet list \<Rightarrow> category \<Rightarrow> bullet list" where
  "tier_M pool c = sort_key idx (filter (\<lambda>b. category b = c \<and> \<not> 5 \<le> priority b) pool)"

text \<open>Lines 513 to 519: what one pass of the loop stores in \<^verbatim>\<open>selected[c]\<close>.\<close>

definition take_for :: "bullet list \<Rightarrow> category \<Rightarrow> int \<Rightarrow> bullet list" where
  "take_for pool c cap =
     (let highs = slice_to cap (tier_H pool c)
      in if int (length highs) < cap
         then highs @ slice_to (cap - int (length highs)) (tier_M pool c)
         else highs)"

text \<open>Lines 511 to 520: \<^verbatim>\<open>selected\<close> starts empty for every category.\<close>

fun select_loop ::
  "bullet list \<Rightarrow> (category \<times> int) list \<Rightarrow> (category \<Rightarrow> bullet list) \<Rightarrow> category \<Rightarrow> bullet list" where
  "select_loop pool [] selected = selected"
| "select_loop pool ((c, cap) # targets) selected =
     select_loop pool targets (selected(c := take_for pool c cap))"

definition select_bullets :: "bullet list \<Rightarrow> (category \<times> int) list \<Rightarrow> category \<Rightarrow> bullet list" where
  "select_bullets pool targets = select_loop pool targets (\<lambda>c. [])"

text \<open>The selection stage of the build, lines 492 to 520, from \<^verbatim>\<open>all_bullets\<close> on.\<close>

record selection =
  sel_kept_total :: int
  sel_targets :: "(category \<times> int) list"
  sel_selected :: "category \<Rightarrow> bullet list"

definition build_selection :: "bullet list \<Rightarrow> py_error + selection" where
  "build_selection bullets =
     (let pool = pool_of bullets;
          kept = kept_total (length pool)
      in case target_counts kept WHAC_RATIOS of
           Inl e \<Rightarrow> Inl e
         | Inr targets \<Rightarrow>
             Inr \<lparr>sel_kept_total = kept, sel_targets = targets,
                  sel_selected = select_bullets pool targets\<rparr>)"

section \<open>Auxiliary notions\<close>

text \<open>A word: not empty and free of white space.\<close>

definition is_word :: "pystr \<Rightarrow> bool" where
  "is_word w \<longleftrightarrow> w \<noteq> [] \<and> (\<forall>c \<in> set w. \<not> is_space c)"

text \<open>
  A line within the budget unless it holds at most one word, and equal to its words
  joined by single spaces.
\<close>

definition line_ok :: "int \<Rightarrow> pystr \<Rightarrow> bool" where
  "line_ok m l \<longleftrightarrow>
     (1 < length (split l) \<longrightarrow> int (length l) \<le> m) \<and> join_space (split l) = l"

text \<open>
  How many of the indices \<open>js\<close> of the loop of \<^verbatim>\<open>target_counts\<close> select the key
  \<open>k\<close>.
\<close>

definition hits :: "(rat \<times> 'k) list \<Rightarrow> nat list \<Rightarrow> 'k \<Rightarrow> nat" where
  "hits fracs js k = length (filter (\<lambda>i. snd (fracs ! (i mod length fracs)) = k) js)"

text \<open>
  A concrete state of the four editors: ten WHAT rows of which six are HIGH and four
  MEDIUM, six HOW rows, four SURE rows and two CYDI rows, none of priority zero.
\<close>

definition scenario_item :: "int \<Rightarrow> item" where
  "scenario_item p = \<lparr>item_text = str ''x'', item_priority = p, item_link = []\<rparr>"

definition scenario_bullets :: "bullet list" where
  "scenario_bullets =
     all_bullets (map scenario_item [5, 3, 5, 5, 3, 5, 5, 3, 5, 3])
                 (map scenario_item [5, 3, 3, 5, 3, 3])
                 (map scenario_item [3, 5, 3, 5])
                 (map scenario_item [5, 3])"

text \<open>A bullet of that pool.\<close>

definition scenario_bullet :: "int \<Rightarrow> category \<Rightarrow> nat \<Rightarrow> bullet" where
  "scenario_bullet p c i = \<lparr>text_of = str ''x'', priority = p, link = [], category = c, idx = i\<rparr>"

section \<open>Properties of the wrapping helpers\<close>

lemma split_from_space:
  "is_space c \<Longrightarrow> split_from cur (a @ c # b) = split_from cur a @ split_from [] b"
  by (induction a arbitrary: cur) auto

lemma split_space: "is_space c \<Longrightarrow> split (a @ c # b) = split a @ split b"
  by (simp add: split_def split_from_space)

lemma split_from_nospace:
  "\<forall>c \<in> set w. \<not> is_space c \<Longrightarrow> split_from cur w = (if cur @ w = [] then [] else [cur @ w])"
  by (induction w arbitrary: cur) auto

lemma split_word: "is_word w \<Longrightarrow> split w = [w]"
  by (simp add: is_word_def split_def split_from_nospace)

lemma split_from_words:
  "\<forall>c \<in> set cur. \<not> is_space c \<Longrightarrow> w \<in> set (split_from cur s) \<Longrightarrow> is_word w"
proof (induction s arbitrary: cur)
  case Nil
  then show ?case by (auto simp: is_word_def split: if_splits)
next
  case (Cons a s)
  show ?case
  proof (cases "is_space a")
    case True
    with Cons.prems have "w = cur \<and> cur \<noteq> [] \<or> w \<in> set (split_from [] s)"
      by (auto split: if_splits)
    then show ?thesis
      using Cons.prems(1) Cons.IH [of "[]"] by (auto simp: is_word_def)
  next
    case False
    with Cons.prems have "w \<in> set (split_from (cur @ [a]) s)" by simp
    then show ?thesis
      using Cons.prems(1) False Cons.IH [of "cur @ [a]"] by auto
  qed
qed

lemma split_words: "w \<in> set (split s) \<Longrightarrow> is_word w"
  using split_from_words [of "[]" w s] by (simp add: split_def)

lemma split_Nil [simp]: "split [] = []"
  by (simp add: split_def)

lemma is_space_32: "is_space 32"
  by (simp add: is_space_def)

lemma split_join_space: "split (join_space ls) = concat (map split ls)"
proof (induction ls rule: join_space.induct)
  case 1
  show ?case by (simp add: split_def)
next
  case (2 x)
  show ?case by simp
next
  case (3 x y ys)
  then show ?case by (simp add: split_space [OF is_space_32])
qed

lemma concat_split_words: "\<forall>w \<in> set ws. is_word w \<Longrightarrow> concat (map split ws) = ws"
  by (induction ws) (auto simp: split_word)

lemma join_space_snoc:
  "join_space (b @ [w]) = (if b = [] then w else join_space b @ 32 # w)"
  by (induction b rule: join_space.induct) auto

lemma wrap_chars_loop_words:
  "concat (map split (wrap_chars_loop m lines cur ws)) =
     concat (map split lines) @ split cur @ concat (map split ws)"
  by (induction ws arbitrary: lines cur) (auto simp: split_space [OF is_space_32])

lemma wrap_chars_words: "concat (map split (wrap_chars text m)) = split text"
proof (cases "split text")
  case Nil
  then show ?thesis by (simp add: wrap_chars_def split_def)
next
  case (Cons w ws)
  have "\<forall>v \<in> set (w # ws). is_word v"
    using split_words [of _ "text"] Cons by auto
  then have "concat (map split (w # ws)) = w # ws"
    by (rule concat_split_words)
  then show ?thesis
    using Cons by (simp add: wrap_chars_def wrap_chars_loop_words)
qed

lemma wrap_by_wordcount_loop_words:
  "concat (map split (wrap_by_wordcount_loop m lines bucket ws)) =
     concat (map split lines) @ split (join_space bucket) @ concat (map split ws)"
proof (induction ws arbitrary: lines bucket)
  case Nil
  show ?case by (simp add: split_def)
next
  case (Cons w ws)
  show ?case
    by (simp add: Cons join_space_snoc split_space [OF is_space_32])
qed

lemma wrap_by_wordcount_words: "concat (map split (wrap_by_wordcount text m)) = split text"
proof (cases "split text")
  case Nil
  then show ?thesis by (simp add: wrap_by_wordcount_def split_def)
next
  case (Cons w ws)
  have "\<forall>v \<in> set (w # ws). is_word v"
    using split_words [of _ "text"] Cons by auto
  then have "concat (map split (w # ws)) = w # ws"
    by (rule concat_split_words)
  then show ?thesis
    using Cons by (simp add: wrap_by_wordcount_def wrap_by_wordcount_loop_words split_def)
qed

text \<open>
  Claim C7. For every text, every \<open>max_chars\<close> and every \<open>max_words\<close> (positive or
  not), joining the lines of \<^verbatim>\<open>wrap_chars\<close> or of \<^verbatim>\<open>wrap_by_wordcount\<close> with single
  spaces and splitting the result on white space gives back the words of the text, in
  order.
\<close>

theorem wrap_round_trip:
  "split (join_space (wrap_chars text max_chars)) = split text \<and>
   split (join_space (wrap_by_wordcount text max_words)) = split text"
  by (simp add: split_join_space wrap_chars_words wrap_by_wordcount_words)

lemma line_ok_word: "is_word w \<Longrightarrow> line_ok m w"
  by (simp add: line_ok_def split_word)

lemma line_ok_append:
  assumes "line_ok m cur" "split cur \<noteq> []" "is_word w"
    and "int (length cur) + 1 + int (length w) \<le> m"
  shows "line_ok m (cur @ [32] @ w)"
proof -
  have s: "split (cur @ [32] @ w) = split cur @ [w]"
    using assms(3) by (simp add: split_space [OF is_space_32] split_word)
  have "join_space (split cur @ [w]) = join_space (split cur) @ 32 # w"
    using assms(2) by (simp add: join_space_snoc)
  also have "join_space (split cur) = cur"
    using assms(1) by (simp add: line_ok_def)
  finally show ?thesis
    using assms(4) s by (simp add: line_ok_def)
qed

lemma wrap_chars_loop_lines:
  assumes "\<forall>l \<in> set lines. line_ok m l" "line_ok m cur" "split cur \<noteq> []"
    and "\<forall>w \<in> set ws. is_word w"
  shows "\<forall>l \<in> set (wrap_chars_loop m lines cur ws). line_ok m l"
  using assms
proof (induction ws arbitrary: lines cur)
  case Nil
  then show ?case by simp
next
  case (Cons w ws)
  have w: "is_word w" and ws: "\<forall>v \<in> set ws. is_word v"
    using Cons.prems(4) by simp_all
  show ?case
  proof (cases "int (length cur) + 1 + int (length w) \<le> m")
    case True
    have "line_ok m (cur @ [32] @ w)"
      using Cons.prems(2,3) w True by (rule line_ok_append)
    moreover have "split (cur @ [32] @ w) \<noteq> []"
      by (simp add: split_space [OF is_space_32] Cons.prems(3))
    ultimately have "\<forall>l \<in> set (wrap_chars_loop m lines (cur @ [32] @ w) ws). line_ok m l"
      using Cons.prems(1) ws by (intro Cons.IH)
    moreover have "wrap_chars_loop m lines cur (w # ws) =
        wrap_chars_loop m lines (cur @ [32] @ w) ws"
      using True by simp
    ultimately show ?thesis by (simp only:)
  next
    case False
    have "\<forall>l \<in> set (lines @ [cur]). line_ok m l"
      using Cons.prems(1,2) by simp
    moreover have "line_ok m w" "split w \<noteq> []"
      using w by (simp_all add: line_ok_word split_word)
    ultimately have "\<forall>l \<in> set (wrap_chars_loop m (lines @ [cur]) w ws). line_ok m l"
      using ws by (intro Cons.IH)
    moreover have "wrap_chars_loop m lines cur (w # ws) =
        wrap_chars_loop m (lines @ [cur]) w ws"
      using False by simp
    ultimately show ?thesis by (simp only:)
  qed
qed

lemma wrap_chars_line_ok: "l \<in> set (wrap_chars txt m) \<Longrightarrow> line_ok m l"
proof (cases "split txt")
  case Nil
  moreover assume "l \<in> set (wrap_chars txt m)"
  ultimately show ?thesis by (simp add: wrap_chars_def line_ok_def)
next
  case (Cons w ws)
  assume l: "l \<in> set (wrap_chars txt m)"
  have "\<forall>v \<in> set (w # ws). is_word v"
    using split_words [of _ "txt"] Cons by auto
  then have "\<forall>l \<in> set (wrap_chars_loop m [] w ws). line_ok m l"
    by (intro wrap_chars_loop_lines) (simp_all add: line_ok_word split_word)
  then show ?thesis
    using l Cons by (simp add: wrap_chars_def)
qed

text \<open>
  Claim C6. For every text and every \<open>max_chars\<close>, every line of \<^verbatim>\<open>wrap_chars\<close>
  that holds more than one word is at most \<open>max_chars\<close> long; every line is its own
  words joined by single spaces and the words of the lines, taken in order, are the words
  of the text, so no word is split; and a line longer than \<open>max_chars\<close> holds at most one
  word.
\<close>

theorem wrap_chars_lines:
  "(\<forall>l \<in> set (wrap_chars txt max_chars).
      (1 < length (split l) \<longrightarrow> int (length l) \<le> max_chars) \<and>
      join_space (split l) = l \<and>
      (max_chars < int (length l) \<longrightarrow> length (split l) \<le> 1)) \<and>
   concat (map split (wrap_chars txt max_chars)) = split txt"
proof (intro conjI ballI)
  fix l
  assume "l \<in> set (wrap_chars txt max_chars)"
  then have ok: "line_ok max_chars l"
    by (rule wrap_chars_line_ok)
  show "1 < length (split l) \<longrightarrow> int (length l) \<le> max_chars"
    using ok by (simp add: line_ok_def)
  show "join_space (split l) = l"
    using ok by (simp add: line_ok_def)
  show "max_chars < int (length l) \<longrightarrow> length (split l) \<le> 1"
    using ok by (auto simp: line_ok_def)
next
  show "concat (map split (wrap_chars txt max_chars)) = split txt"
    by (rule wrap_chars_words)
qed

text \<open>The hypotheses of the theorem hold for two lines of a concrete text.\<close>

theorem wrap_chars_lines_witness:
  "str ''a very'' \<in> set (wrap_chars (str ''a very long singleword'') 6) \<and>
   1 < length (split (str ''a very'')) \<and> int (length (str ''a very'')) \<le> 6 \<and>
   str ''singleword'' \<in> set (wrap_chars (str ''a very long singleword'') 6) \<and>
   6 < int (length (str ''singleword'')) \<and> length (split (str ''singleword'')) \<le> 1"
proof -
  let ?t = "str ''a very long singleword''"
  have w: "wrap_chars ?t 6 = [str ''a very'', str ''long'', str ''singleword'']"
    by (simp add: wrap_chars_def str_def split_def is_space_def)
  have m1: "str ''a very'' \<in> set (wrap_chars ?t 6)"
    and m2: "str ''singleword'' \<in> set (wrap_chars ?t 6)"
    by (simp_all add: w)
  have h1: "1 < length (split (str ''a very''))"
    by (simp add: str_def split_def is_space_def)
  have h2: "6 < int (length (str ''singleword''))"
    by (simp add: str_def)
  from wrap_chars_lines [of ?t 6] m1 h1 have c1: "int (length (str ''a very'')) \<le> 6"
    by blast
  from wrap_chars_lines [of ?t 6] m2 h2 have c2: "length (split (str ''singleword'')) \<le> 1"
    by blast
  show ?thesis
    using m1 m2 h1 h2 c1 c2 by blast
qed

section \<open>Properties of the quota allocator\<close>

lemma update_sum:
  "distinct (map fst al) \<Longrightarrow> map_of al k = Some c \<Longrightarrow>
   sum_list (map snd (AList.update k (c + 1) al)) = sum_list (map snd al) + (1::int)"
  by (induction al) (auto split: if_splits)

lemma update_keys_present:
  "map_of al k = Some c \<Longrightarrow> map fst (AList.update k v al) = map fst al"
  by (induction al) (auto split: if_splits)

lemma map_of_update:
  "map_of (AList.update k v al) k' = (if k' = k then Some v else map_of al k')"
  by (simp add: update_conv')

lemma distribute_Inr:
  assumes "distribute fracs js floors = Inr caps" "distinct (map fst floors)"
  shows "map fst caps = map fst floors \<and>
         sum_list (map snd caps) = sum_list (map snd floors) + int (length js) \<and>
         (\<forall>k. map_of caps k = map_option (\<lambda>c. c + int (hits fracs js k)) (map_of floors k))"
  using assms
proof (induction js arbitrary: floors)
  case Nil
  then show ?case by (simp add: hits_def option.map_ident)
next
  case (Cons i js)
  let ?k = "snd (fracs ! (i mod length fracs))"
  from Cons.prems(1) have ne: "fracs \<noteq> []"
    by (auto split: if_splits)
  from Cons.prems(1) ne obtain c where c: "map_of floors ?k = Some c"
    by (auto simp: Let_def split: option.splits)
  let ?f = "AList.update ?k (c + 1) floors"
  from Cons.prems(1) ne c have rest: "distribute fracs js ?f = Inr caps"
    by (simp add: Let_def)
  have keys: "map fst ?f = map fst floors"
    using c by (rule update_keys_present)
  then have d: "distinct (map fst ?f)"
    using Cons.prems(2) by simp
  note ih = Cons.IH [OF rest d]
  have s: "sum_list (map snd ?f) = sum_list (map snd floors) + 1"
    using Cons.prems(2) c by (rule update_sum)
  have m: "map_of caps k = map_option (\<lambda>c. c + int (hits fracs (i # js) k)) (map_of floors k)" for k
  proof (cases "k = ?k")
    case True
    then show ?thesis
      using ih c by (simp add: map_of_update hits_def)
  next
    case False
    then have "hits fracs (i # js) k = hits fracs js k"
      by (auto simp: hits_def)
    then show ?thesis
      using ih False by (simp add: map_of_update)
  qed
  show ?case
    using ih keys s m by simp
qed

lemma distribute_total:
  assumes "fracs \<noteq> []" "snd ` set fracs \<subseteq> fst ` set floors"
  shows "\<exists>caps. distribute fracs js floors = Inr caps"
  using assms
proof (induction js arbitrary: floors)
  case Nil
  then show ?case by simp
next
  case (Cons i js)
  let ?k = "snd (fracs ! (i mod length fracs))"
  have "i mod length fracs < length fracs"
    using Cons.prems(1) by simp
  then have "?k \<in> snd ` set fracs"
    by (metis imageI nth_mem)
  then have "?k \<in> fst ` set floors"
    using Cons.prems(2) by blast
  then obtain c where c: "map_of floors ?k = Some c"
    by (metis domD dom_map_of_conv_image_fst)
  have "fst ` set (AList.update ?k (c + 1) floors) = fst ` set floors"
    using update_keys_present [OF c, of "c + 1"] by (metis set_map)
  then have "\<exists>caps. distribute fracs js (AList.update ?k (c + 1) floors) = Inr caps"
    using Cons.prems by (intro Cons.IH) simp_all
  then show ?case
    using Cons.prems(1) c by (simp add: Let_def)
qed

lemma distribute_empty:
  "distribute [] js floors = (if js = [] then Inr floors else Inl ZeroDivisionError)"
  by (cases js) simp_all

lemma fracs_keys:
  "map snd (map (\<lambda>(k, x). (x - of_int \<lfloor>x\<rfloor>, k)) raw) = map fst raw"
  by (induction raw) auto

lemma distinct_map_sort:
  fixes ys :: "('a::linorder) list"
  shows "distinct (map f ys) \<Longrightarrow> distinct (map f (rev (sort ys)))"
  by (simp add: distinct_map rev_map [symmetric])

lemma fracs_of_set: "snd ` set (fracs_of raw) = fst ` set raw"
proof -
  define ys where "ys = map (\<lambda>(k, x). (x - of_int \<lfloor>x\<rfloor>, k)) raw"
  have "map snd ys = map fst raw"
    unfolding ys_def by (rule fracs_keys)
  then have "snd ` set ys = fst ` set raw"
    by (metis set_map)
  moreover have "set (fracs_of raw) = set ys"
    by (simp add: fracs_of_def ys_def)
  ultimately show ?thesis by simp
qed

lemma fracs_of_length: "length (fracs_of raw) = length raw"
  by (simp add: fracs_of_def)

lemma fracs_of_distinct:
  assumes "distinct (map fst raw)"
  shows "distinct (map snd (fracs_of raw))"
proof -
  define ys where "ys = map (\<lambda>(k, x). (x - of_int \<lfloor>x\<rfloor>, k)) raw"
  have "map snd ys = map fst raw"
    unfolding ys_def by (rule fracs_keys)
  then have "distinct (map snd ys)"
    using assms by simp
  then have "distinct (map snd (rev (sort ys)))"
    by (rule distinct_map_sort)
  then show ?thesis
    by (simp add: fracs_of_def ys_def)
qed

lemma floors_keys: "map fst (floors_of (raw_of tot ratios)) = map fst ratios"
  by (induction ratios) (auto simp: floors_of_def raw_of_def)

lemma raw_keys: "map fst (raw_of tot ratios) = map fst ratios"
  by (induction ratios) (auto simp: raw_of_def)


lemma count_mod:
  assumes "j < n"
  shows "length (filter (\<lambda>i. i mod n = j) [0..<r]) = r div n + (if j < r mod n then 1 else 0)"
proof (induction r)
  case 0
  then show ?case by simp
next
  case (Suc r)
  show ?case
    using Suc assms by (auto simp: mod_Suc div_Suc)
qed

lemma hits_round_robin:
  assumes "distinct (map snd fracs)" "j < length fracs"
  shows "hits fracs [0..<r] (snd (fracs ! j)) =
           r div length fracs + (if j < r mod length fracs then 1 else 0)"
proof -
  have "snd (fracs ! (i mod length fracs)) = snd (fracs ! j) \<longleftrightarrow> i mod length fracs = j" for i
  proof -
    have "0 < length fracs"
      using assms(2) by auto
    then have "i mod length fracs < length fracs"
      by simp
    then show ?thesis
      using assms nth_eq_iff_index_eq [of "map snd fracs" "i mod length fracs" j] by auto
  qed
  then have "hits fracs [0..<r] (snd (fracs ! j)) =
      length (filter (\<lambda>i. i mod length fracs = j) [0..<r])"
    by (simp add: hits_def)
  then show ?thesis
    using count_mod [OF assms(2)] by simp
qed




lemma raw_values: "map snd (raw_of tot ratios) = map (\<lambda>v. of_int tot * v) (map snd ratios)"
  by (induction ratios) (auto simp: raw_of_def)


lemma floor_rat_numeral [simp]: "\<lfloor>numeral a / numeral b :: rat\<rfloor> = numeral a div numeral b"
  by (metis floor_divide_of_int_eq of_int_numeral)

lemma floor_rat_neg_numeral [simp]:
  "\<lfloor>- (numeral a / numeral b) :: rat\<rfloor> = - numeral a div numeral b"
  by (metis floor_divide_of_int_eq of_int_numeral of_int_minus minus_divide_left)

lemma target_counts_caps:
  assumes "ratios \<noteq> []" "distinct (map fst ratios)"
    and "sum_list (map snd (floors_of (raw_of tot ratios))) \<le> tot"
  shows "\<exists>caps. target_counts tot ratios = Inr caps \<and> map fst caps = map fst ratios \<and>
           sum_list (map snd caps) = tot \<and>
           (\<forall>k. map_of caps k =
              map_option (\<lambda>c. c + int (hits (fracs_of (raw_of tot ratios))
                     [0..<nat (tot - sum_list (map snd (floors_of (raw_of tot ratios))))] k))
                (map_of (floors_of (raw_of tot ratios)) k))"
proof -
  let ?raw = "raw_of tot ratios"
  let ?floors = "floors_of ?raw"
  let ?r = "tot - sum_list (map snd ?floors)"
  have ne: "fracs_of ?raw \<noteq> []"
    using assms(1) fracs_of_length [of ?raw] by (auto simp: raw_of_def)
  have "snd ` set (fracs_of ?raw) \<subseteq> fst ` set ?floors"
    using floors_keys [of tot ratios] raw_keys [of tot ratios]
    by (metis fracs_of_set set_map subset_refl)
  then obtain caps where caps: "distribute (fracs_of ?raw) [0..<nat ?r] ?floors = Inr caps"
    using distribute_total [OF ne] by blast
  have d: "distinct (map fst ?floors)"
    using assms(2) by (simp add: floors_keys)
  note facts = distribute_Inr [OF caps d]
  have "sum_list (map snd caps) = tot" "map fst caps = map fst ratios"
    using facts assms(3) by (simp_all add: floors_keys)
  then show ?thesis
    using caps facts by (simp add: target_counts_def Let_def)
qed

text \<open>
  Claim C9, amended. For every mapping with at least one category and every total whose
  floors sum to at most the total, \<^verbatim>\<open>target_counts\<close> returns caps that sum to the total
  exactly: with \<open>r\<close> the remainder and \<open>n\<close> the number of categories, the category at
  position \<open>j\<close> of the list sorted by descending fractional part receives \<open>r div n\<close>
  units, and one more when \<open>j < r mod n\<close>. The ratios need not sum to one and \<open>r\<close> may
  exceed \<open>n\<close>.
\<close>

theorem target_counts_round_robin:
  assumes "ratios \<noteq> []" "distinct (map fst ratios)"
    and "sum_list (map snd (floors_of (raw_of tot ratios))) \<le> tot"
  shows "\<exists>caps. target_counts tot ratios = Inr caps \<and> sum_list (map snd caps) = tot \<and>
           (let fracs = fracs_of (raw_of tot ratios);
                floors = floors_of (raw_of tot ratios);
                r = nat (tot - sum_list (map snd floors));
                n = length ratios
            in \<forall>j < n. map_of caps (snd (fracs ! j)) =
                 map_option (\<lambda>c. c + int (r div n) + (if j < r mod n then 1 else 0))
                   (map_of floors (snd (fracs ! j))))"
proof -
  let ?F = "fracs_of (raw_of tot ratios)"
  from target_counts_caps [OF assms] obtain caps where
    c: "target_counts tot ratios = Inr caps" "sum_list (map snd caps) = tot"
    and m: "\<And>k. map_of caps k =
              map_option (\<lambda>c. c + int (hits ?F
                     [0..<nat (tot - sum_list (map snd (floors_of (raw_of tot ratios))))] k))
                (map_of (floors_of (raw_of tot ratios)) k)"
    by blast
  have len: "length ?F = length ratios"
    by (simp add: fracs_of_length raw_of_def)
  have dist: "distinct (map snd ?F)"
    using assms(2) by (intro fracs_of_distinct) (simp add: raw_keys)
  have "map_of caps (snd (?F ! j)) =
          map_option (\<lambda>c. c + int (nat (tot - sum_list (map snd (floors_of (raw_of tot ratios))))
                               div length ratios)
                         + (if j < nat (tot - sum_list (map snd (floors_of (raw_of tot ratios))))
                                   mod length ratios then 1 else 0))
            (map_of (floors_of (raw_of tot ratios)) (snd (?F ! j)))"
    if "j < length ratios" for j
  proof -
    have "j < length ?F" using that len by simp
    from hits_round_robin [OF dist this] show ?thesis
      by (simp add: m len add.assoc cong: option.map_cong)
  qed
  then show ?thesis
    using c by (auto simp: Let_def)
qed



text \<open>
  Claim C9 as stated fails for the mapping without categories: the floors sum to zero,
  which is at most the total 1, and line 201 divides by zero.
\<close>

theorem target_counts_no_category:
  "sum_list (map snd (floors_of (raw_of 1 ([] :: (category \<times> rat) list)))) \<le> 1 \<and>
   target_counts 1 ([] :: (category \<times> rat) list) = Inl ZeroDivisionError"
  by code_simp


theorem target_counts_round_robin_witness:
  "[(WHAT, 1 / 10), (HOW, 1 / 10 :: rat)] \<noteq> [] \<and>
   distinct (map fst [(WHAT, 1 / 10), (HOW, 1 / 10 :: rat)]) \<and>
   sum_list (map snd (floors_of (raw_of 10 [(WHAT, 1 / 10), (HOW, 1 / 10)]))) \<le> 10 \<and>
   (\<exists>caps. target_counts 10 [(WHAT, 1 / 10), (HOW, 1 / 10)] = Inr caps \<and>
      sum_list (map snd caps) = 10)"
proof -
  let ?R = "[(WHAT, 1 / 10), (HOW, 1 / 10 :: rat)]"
  have h: "?R \<noteq> []" "distinct (map fst ?R)"
    "sum_list (map snd (floors_of (raw_of 10 ?R))) \<le> 10"
    by (simp_all add: floors_of_def raw_of_def)
  from target_counts_round_robin [OF h] have
    "\<exists>caps. target_counts 10 ?R = Inr caps \<and> sum_list (map snd caps) = 10"
    by blast
  then show ?thesis using h by blast
qed

section \<open>Properties of the build\<close>

lemma py_round_ge_floor: "\<lfloor>x\<rfloor> \<le> py_round x"
  by (simp add: py_round_def Let_def)

lemma half_odd:
  assumes "odd n"
  shows "\<lfloor>(of_nat n :: rat) * (50 / 100)\<rfloor> = int (n div 2)"
    and "(of_nat n :: rat) * (50 / 100) - of_int (int (n div 2)) = 1 / 2"
proof -
  from assms obtain k where k: "n = 2 * k + 1"
    by (auto elim: oddE)
  have e: "(of_nat n :: rat) * (50 / 100) = of_int (int k) + 1 / 2"
    by (simp add: k field_simps)
  have d: "n div 2 = k"
    by (simp add: k)
  show "\<lfloor>(of_nat n :: rat) * (50 / 100)\<rfloor> = int (n div 2)"
    unfolding e d by (rule floor_unique) simp_all
  show "(of_nat n :: rat) * (50 / 100) - of_int (int (n div 2)) = 1 / 2"
    unfolding e d by simp
qed

lemma py_round_half_odd:
  assumes "odd n"
  shows "py_round (of_nat n * (50 / 100)) =
           (if even (n div 2) then int (n div 2) else int (n div 2) + 1)"
  using half_odd [OF assms] by (simp add: py_round_def Let_def)

text \<open>
  Claim C10. For a pool of odd size \<open>n\<close>, \<^verbatim>\<open>round\<close> applied to \<open>n * 0.5\<close> is the even one
  of the two integers nearest to \<open>n / 2\<close>, and \<^verbatim>\<open>kept_total\<close> is the larger of that and
  one: a pool of 3 gives 2, a pool of 5 gives 2 and a pool of 7 gives 4. The lower bound
  of one takes effect for \<open>n \<le> 1\<close> only.
\<close>

theorem kept_total_half_even:
  "(odd n \<longrightarrow>
      py_round (of_nat n * (50 / 100)) =
        (if even (n div 2) then int (n div 2) else int (n div 2) + 1) \<and>
      even (py_round (of_nat n * (50 / 100))) \<and>
      kept_total n = max 1 (py_round (of_nat n * (50 / 100)))) \<and>
   kept_total 3 = 2 \<and> kept_total 5 = 2 \<and> kept_total 7 = 4 \<and>
   (n \<le> 1 \<longrightarrow> py_round (of_nat n * (50 / 100)) = 0 \<and> kept_total n = 1) \<and>
   (2 \<le> n \<longrightarrow> 1 \<le> py_round (of_nat n * (50 / 100)) \<and>
                kept_total n = py_round (of_nat n * (50 / 100)))"
proof (intro conjI impI)
  assume o: "odd n"
  show r: "py_round (of_nat n * (50 / 100)) =
        (if even (n div 2) then int (n div 2) else int (n div 2) + 1)"
    by (rule py_round_half_odd [OF o])
  show "even (py_round (of_nat n * (50 / 100)))"
    unfolding r by simp
  show "kept_total n = max 1 (py_round (of_nat n * (50 / 100)))"
    by (simp add: kept_total_def)
next
  show "kept_total 3 = 2" "kept_total 5 = 2" "kept_total 7 = 4"
    by (simp_all add: kept_total_def py_round_def Let_def)
next
  assume "n \<le> 1"
  then have "n = 0 \<or> n = 1" by auto
  then show "py_round (of_nat n * (50 / 100)) = 0" "kept_total n = 1"
    by (auto simp: kept_total_def py_round_def Let_def)
next
  assume n: "2 \<le> n"
  have "(1::rat) \<le> of_nat n * (50 / 100)"
    using n by simp
  then have "1 \<le> \<lfloor>(of_nat n :: rat) * (50 / 100)\<rfloor>"
    by (simp add: le_floor_iff)
  then show r: "1 \<le> py_round (of_nat n * (50 / 100))"
    using py_round_ge_floor [of "of_nat n * (50 / 100)"] by linarith
  show "kept_total n = py_round (of_nat n * (50 / 100))"
    using r by (simp add: kept_total_def)
qed

theorem kept_total_half_even_witness:
  "odd (3::nat) \<and> py_round (of_nat (3::nat) * (50 / 100)) = 2 \<and> kept_total 3 = 2 \<and>
   (1::nat) \<le> 1 \<and> kept_total 1 = 1 \<and> (2::nat) \<le> 7 \<and> kept_total 7 = py_round (of_nat (7::nat) * (50 / 100))"
  using kept_total_half_even [of 3] kept_total_half_even [of 1] kept_total_half_even [of 7]
  by simp

section \<open>Properties of the layout\<close>

























section \<open>Properties of the selection\<close>

lemma slice_to_nat: "slice_to (int n) xs = take n xs"
  by (simp add: slice_to_def)

lemma take_for_nat:
  "take_for pool c (int n) =
     take n (tier_H pool c) @ take (n - length (take n (tier_H pool c))) (tier_M pool c)"
proof (cases "length (take n (tier_H pool c)) < n")
  case True
  have "int n - int (length (take n (tier_H pool c))) = int (n - length (take n (tier_H pool c)))"
    using True by simp
  then have "slice_to (int n - int (length (take n (tier_H pool c)))) (tier_M pool c) =
      take (n - length (take n (tier_H pool c))) (tier_M pool c)"
    by (simp only: slice_to_nat)
  then show ?thesis
    using True by (simp add: take_for_def slice_to_nat Let_def del: length_take)
next
  case False
  then show ?thesis
    by (simp add: take_for_def slice_to_nat Let_def del: length_take)
qed

lemma select_loop_map_of:
  "distinct (map fst targets) \<Longrightarrow>
   select_loop pool targets selected c =
     (case map_of targets c of None \<Rightarrow> selected c | Some cap \<Rightarrow> take_for pool c cap)"
proof (induction targets arbitrary: selected)
  case Nil
  then show ?case by simp
next
  case (Cons t targets)
  obtain c' cap where t: "t = (c', cap)" by (cases t)
  have d: "distinct (map fst targets)" and nin: "c' \<notin> fst ` set targets"
    using Cons.prems t by simp_all
  have none: "map_of targets c' = None"
    using nin by (simp add: map_of_eq_None_iff)
  show ?case
    using Cons.IH [OF d] none t by (auto split: option.splits)
qed

lemma map_of_int_caps:
  "distinct (map fst caps) \<Longrightarrow> (c, n) \<in> set caps \<Longrightarrow>
   map_of (map (\<lambda>(c, n). (c, int n)) caps) c = Some (int n)"
  by (induction caps) (auto simp: rev_image_eqI)

lemma select_bullets_nat:
  assumes "distinct (map fst caps)" "(c, n) \<in> set caps"
  shows "select_bullets pool (map (\<lambda>(c, n). (c, int n)) caps) c = take_for pool c (int n)"
proof -
  let ?t = "map (\<lambda>(c, n). (c, int n)) caps"
  have k: "map fst ?t = map fst caps"
    by (induction caps) auto
  have "map_of ?t c = Some (int n)"
    using assms by (rule map_of_int_caps)
  moreover have "distinct (map fst ?t)"
    using assms(1) by (simp only: k)
  ultimately show ?thesis
    by (simp only: select_bullets_def select_loop_map_of option.case)
qed

lemma tier_lengths:
  "length (tier_H pool c) + length (tier_M pool c) = length (filter (\<lambda>b. category b = c) pool)"
proof -
  have "filter (\<lambda>b. category b = c \<and> 5 \<le> priority b) pool =
      filter (\<lambda>b. 5 \<le> priority b) (filter (\<lambda>b. category b = c) pool)"
    and "filter (\<lambda>b. category b = c \<and> \<not> 5 \<le> priority b) pool =
      filter (\<lambda>b. \<not> 5 \<le> priority b) (filter (\<lambda>b. category b = c) pool)"
    by (simp_all add: conj_commute)
  then show ?thesis
    by (simp only: tier_H_def tier_M_def length_sort sum_length_filter_compl)
qed

lemma tier_H_high: "b \<in> set (tier_H pool c) \<Longrightarrow> 5 \<le> priority b \<and> category b = c \<and> b \<in> set pool"
  by (simp add: tier_H_def)

lemma tier_M_medium:
  "b \<in> set (tier_M pool c) \<Longrightarrow> \<not> 5 \<le> priority b \<and> category b = c \<and> b \<in> set pool"
  by (simp add: tier_M_def)

lemma tier_sorted_id:
  assumes "sorted (map idx (filter (\<lambda>b. category b = c) pool))"
  shows "tier_H pool c = filter (\<lambda>b. category b = c \<and> 5 \<le> priority b) pool"
    and "tier_M pool c = filter (\<lambda>b. category b = c \<and> \<not> 5 \<le> priority b) pool"
proof -
  have e: "filter (\<lambda>b. category b = c \<and> P b) pool = filter P (filter (\<lambda>b. category b = c) pool)"
    for P :: "bullet \<Rightarrow> bool"
    by (simp add: conj_commute)
  have "sorted (map idx (filter P (filter (\<lambda>b. category b = c) pool)))" for P :: "bullet \<Rightarrow> bool"
    using assms by (rule sorted_filter)
  then have "sorted (map idx (filter (\<lambda>b. category b = c \<and> P b) pool))" for P :: "bullet \<Rightarrow> bool"
    by (simp only: e)
  then show "tier_H pool c = filter (\<lambda>b. category b = c \<and> 5 \<le> priority b) pool"
    and "tier_M pool c = filter (\<lambda>b. category b = c \<and> \<not> 5 \<le> priority b) pool"
    by (simp_all only: tier_H_def tier_M_def sort_key_id_if_sorted)
qed

text \<open>
  Claim C3. For every pool and every mapping of categories to caps that are natural
  numbers, the selection of a category \<open>c\<close> with cap \<open>n\<close> has exactly
  \<open>min n (number of entries of c in the pool)\<close> entries; it is its HIGH entries followed
  by its MEDIUM entries; the HIGH entries are the first \<open>n\<close> of the category's HIGH tier
  and the MEDIUM entries fill what is left of the cap from the MEDIUM tier, each tier
  being in ascending index order under a stable sort on the index alone. When the pool
  lists the entries of the category in index order, as the pool of the build does, the
  selected entries of a tier are the first ones of that tier in the order of the pool.
\<close>

theorem selection_shape:
  assumes "distinct (map fst caps)" "(c, n) \<in> set caps"
  shows "let sel = select_bullets pool (map (\<lambda>(c, n). (c, int n)) caps) c;
             hs = filter (\<lambda>b. 5 \<le> priority b) sel;
             ms = filter (\<lambda>b. \<not> 5 \<le> priority b) sel
         in length sel = min n (length (filter (\<lambda>b. category b = c) pool)) \<and>
            sel = hs @ ms \<and>
            hs = take n (tier_H pool c) \<and>
            ms = take (n - length hs) (tier_M pool c) \<and>
            sorted (map idx hs) \<and> sorted (map idx ms) \<and>
            (sorted (map idx (filter (\<lambda>b. category b = c) pool)) \<longrightarrow>
               hs = take n (filter (\<lambda>b. category b = c \<and> 5 \<le> priority b) pool) \<and>
               ms = take (n - length hs)
                      (filter (\<lambda>b. category b = c \<and> \<not> 5 \<le> priority b) pool))"
proof -
  define H where "H = take n (tier_H pool c)"
  define M where "M = take (n - length H) (tier_M pool c)"
  define sel where "sel = select_bullets pool (map (\<lambda>(c, n). (c, int n)) caps) c"
  have sel: "sel = H @ M"
    unfolding sel_def H_def M_def select_bullets_nat [OF assms] by (rule take_for_nat)
  have Hh: "\<forall>b \<in> set H. 5 \<le> priority b"
    unfolding H_def using tier_H_high [of _ pool c] by (auto dest: in_set_takeD)
  have Mm: "\<forall>b \<in> set M. \<not> 5 \<le> priority b"
    unfolding M_def using tier_M_medium [of _ pool c] by (auto dest: in_set_takeD)
  have fh: "filter (\<lambda>b. 5 \<le> priority b) sel = H"
    unfolding sel using Hh Mm by simp
  have fm: "filter (\<lambda>b. \<not> 5 \<le> priority b) sel = M"
    unfolding sel using Hh Mm by simp
  have len: "length sel = min n (length (filter (\<lambda>b. category b = c) pool))"
    unfolding sel H_def M_def using tier_lengths [of pool c] by auto
  have sH: "sorted (map idx H)"
    unfolding H_def tier_H_def by (simp add: take_map [symmetric] sorted_wrt_take del: take_map)
  have sM: "sorted (map idx M)"
    unfolding M_def tier_M_def by (simp add: take_map [symmetric] sorted_wrt_take del: take_map)
  have ord: "H = take n (filter (\<lambda>b. category b = c \<and> 5 \<le> priority b) pool) \<and>
             M = take (n - length H) (filter (\<lambda>b. category b = c \<and> \<not> 5 \<le> priority b) pool)"
    if "sorted (map idx (filter (\<lambda>b. category b = c) pool))"
    unfolding H_def M_def using tier_sorted_id [OF that] by simp
  show ?thesis
    unfolding Let_def sel_def [symmetric] fh fm
    using sel len sH sM ord H_def M_def by blast
qed

lemma idx_collect: "map idx (collect items cat linkflag) = [0..<length items]"
proof -
  have "map idx (collect items cat linkflag) = map fst (zip [0..<length items] items)"
    by (simp add: collect_def case_prod_unfold comp_def)
  then show ?thesis by simp
qed

lemma category_collect: "b \<in> set (collect items cat linkflag) \<Longrightarrow> category b = cat"
  by (auto simp: collect_def)

lemma filter_category_collect:
  "filter (\<lambda>b. category b = c) (collect items cat linkflag) =
     (if c = cat then collect items cat linkflag else [])"
  using category_collect [of _ items cat linkflag] by auto

lemma pool_in_entry_order:
  "sorted (map idx (filter (\<lambda>b. category b = c)
     (pool_of (all_bullets what_items how_items sure_items cydi_items))))"
proof -
  let ?keep = "\<lambda>x. text_of x \<noteq> [] \<and> 0 < priority x"
  have s: "sorted (map idx (filter ?keep (collect items cat linkflag)))"
    for items cat linkflag
    by (rule sorted_filter) (simp add: idx_collect)
  have "filter (\<lambda>b. category b = c)
      (pool_of (all_bullets what_items how_items sure_items cydi_items)) =
      filter ?keep (filter (\<lambda>b. category b = c)
        (all_bullets what_items how_items sure_items cydi_items))"
    by (simp add: pool_of_def conj_commute)
  then show ?thesis
    using s by (cases c) (simp_all add: all_bullets_def filter_category_collect)
qed

lemma targets_1: "target_counts 1 WHAC_RATIOS = Inr [(WHAT, 1), (HOW, 0), (SURE, 0), (CYDI, 0)]"
  by code_simp

lemma targets_11: "target_counts 11 WHAC_RATIOS = Inr [(WHAT, 5), (HOW, 3), (SURE, 2), (CYDI, 1)]"
  by code_simp

lemma select_empty_pool: "select_bullets [] targets c = []"
proof -
  have t: "take_for [] c cap = []" for c cap
    by (simp add: take_for_def tier_H_def tier_M_def slice_to_def Let_def)
  have "select_loop [] targets selected c = [] " if "selected c = []" for selected
    using that by (induction targets arbitrary: selected) (auto simp: t)
  then show ?thesis
    by (simp add: select_bullets_def)
qed

text \<open>
  Claim C8. When the filtered pool is empty, the selection stage returns a result and
  raises nothing, the kept total is 1, the caps sum to at most 1, and the selection of
  every category is empty.
\<close>

theorem empty_pool_selection:
  assumes "pool_of bullets = []"
  shows "\<exists>s. build_selection bullets = Inr s \<and> sel_kept_total s = 1 \<and>
           sum_list (map snd (sel_targets s)) \<le> 1 \<and> (\<forall>c. sel_selected s c = [])"
proof -
  have "kept_total 0 = 1"
    by (simp add: kept_total_def py_round_def Let_def)
  then have "build_selection bullets =
      Inr \<lparr>sel_kept_total = 1, sel_targets = [(WHAT, 1), (HOW, 0), (SURE, 0), (CYDI, 0)],
           sel_selected = select_bullets [] [(WHAT, 1), (HOW, 0), (SURE, 0), (CYDI, 0)]\<rparr>"
    using assms by (simp add: build_selection_def targets_1 Let_def)
  then show ?thesis
    by (simp add: select_empty_pool)
qed

lemma scenario_bullet_simps [simp]:
  "category (scenario_bullet p c i) = c"
  "priority (scenario_bullet p c i) = p"
  "idx (scenario_bullet p c i) = i"
  by (simp_all add: scenario_bullet_def)

lemma strip_x_id: "strip (str ''x'') = str ''x''"
  by (simp add: strip_def str_def is_space_def)

lemma scenario_pool:
  "pool_of scenario_bullets =
     [scenario_bullet 5 WHAT 0, scenario_bullet 3 WHAT 1, scenario_bullet 5 WHAT 2, scenario_bullet 5 WHAT 3, scenario_bullet 3 WHAT 4, scenario_bullet 5 WHAT 5, scenario_bullet 5 WHAT 6,
      scenario_bullet 3 WHAT 7, scenario_bullet 5 WHAT 8, scenario_bullet 3 WHAT 9,
      scenario_bullet 5 HOW 0, scenario_bullet 3 HOW 1, scenario_bullet 3 HOW 2, scenario_bullet 5 HOW 3, scenario_bullet 3 HOW 4, scenario_bullet 3 HOW 5,
      scenario_bullet 3 SURE 0, scenario_bullet 5 SURE 1, scenario_bullet 3 SURE 2, scenario_bullet 5 SURE 3,
      scenario_bullet 5 CYDI 0, scenario_bullet 3 CYDI 1]"
  by (simp add: scenario_bullets_def all_bullets_def collect_def scenario_item_def pool_of_def
      strip_x_id scenario_bullet_def eval_nat_numeral upt_rec)
     (simp add: str_def strip_def)

lemma scenario_tier_H:
  "tier_H (pool_of scenario_bullets) WHAT =
     [scenario_bullet 5 WHAT 0, scenario_bullet 5 WHAT 2, scenario_bullet 5 WHAT 3, scenario_bullet 5 WHAT 5, scenario_bullet 5 WHAT 6, scenario_bullet 5 WHAT 8]"
  by (simp add: scenario_pool tier_H_def)

lemma scenario_select:
  "select_bullets (pool_of scenario_bullets) [(WHAT, 5), (HOW, 3), (SURE, 2), (CYDI, 1)] WHAT =
     [scenario_bullet 5 WHAT 0, scenario_bullet 5 WHAT 2, scenario_bullet 5 WHAT 3, scenario_bullet 5 WHAT 5, scenario_bullet 5 WHAT 6]"
  by (simp add: select_bullets_def take_for_def slice_to_def scenario_tier_H Let_def)

text \<open>
  Claim C2 as stated fails on a pool of the stated shape: the kept total is 11, but the
  caps are WHAT 5, HOW 3, SURE 2 and CYDI 1 (the fractional part 0.5 of WHAT is the
  smallest of the four and the remainder is 3), and the WHAT selection holds the HIGH
  entries 0, 2, 3, 5 and 6 but not the sixth HIGH entry, 8.
\<close>

theorem scenario_targets:
  "length (pool_of scenario_bullets) = 22 \<and>
   build_selection scenario_bullets =
     Inr \<lparr>sel_kept_total = 11,
          sel_targets = [(WHAT, 5), (HOW, 3), (SURE, 2), (CYDI, 1)],
          sel_selected = select_bullets (pool_of scenario_bullets)
                           [(WHAT, 5), (HOW, 3), (SURE, 2), (CYDI, 1)]\<rparr> \<and>
   map idx (tier_H (pool_of scenario_bullets) WHAT) = [0, 2, 3, 5, 6, 8] \<and>
   map idx (select_bullets (pool_of scenario_bullets)
              [(WHAT, 5), (HOW, 3), (SURE, 2), (CYDI, 1)] WHAT) = [0, 2, 3, 5, 6]"
proof -
  have l: "length (pool_of scenario_bullets) = 22"
    by (simp add: scenario_pool)
  have k: "kept_total 22 = 11"
    by (simp add: kept_total_def py_round_def Let_def)
  show ?thesis
    by (simp add: l build_selection_def k targets_11 scenario_select scenario_tier_H Let_def)
qed

lemma length_by_category:
  "length pool = length (filter (\<lambda>b. category b = WHAT) pool)
               + length (filter (\<lambda>b. category b = HOW) pool)
               + length (filter (\<lambda>b. category b = SURE) pool)
               + length (filter (\<lambda>b. category b = CYDI) pool)"
proof (induction pool)
  case Nil
  then show ?case by simp
next
  case (Cons b pool)
  then show ?case by (cases "category b") simp_all
qed

text \<open>
  Claim C2, amended. For a pool of 10 WHAT entries (6 HIGH and 4 MEDIUM), 6 HOW, 4 SURE
  and 2 CYDI entries, the kept total is 11, the caps are WHAT 5, HOW 3, SURE 2 and
  CYDI 1, and the WHAT selection is the first five HIGH entries in index order, with no
  MEDIUM entry.
\<close>

theorem scenario_selection:
  assumes "length (filter (\<lambda>b. category b = WHAT \<and> 5 \<le> priority b) (pool_of bullets)) = 6"
    and "length (filter (\<lambda>b. category b = WHAT \<and> \<not> 5 \<le> priority b) (pool_of bullets)) = 4"
    and "length (filter (\<lambda>b. category b = HOW) (pool_of bullets)) = 6"
    and "length (filter (\<lambda>b. category b = SURE) (pool_of bullets)) = 4"
    and "length (filter (\<lambda>b. category b = CYDI) (pool_of bullets)) = 2"
  shows "build_selection bullets =
           Inr \<lparr>sel_kept_total = 11,
                sel_targets = [(WHAT, 5), (HOW, 3), (SURE, 2), (CYDI, 1)],
                sel_selected = select_bullets (pool_of bullets)
                                 [(WHAT, 5), (HOW, 3), (SURE, 2), (CYDI, 1)]\<rparr> \<and>
         select_bullets (pool_of bullets) [(WHAT, 5), (HOW, 3), (SURE, 2), (CYDI, 1)] WHAT =
           take 5 (tier_H (pool_of bullets) WHAT) \<and>
         length (take 5 (tier_H (pool_of bullets) WHAT)) = 5 \<and>
         (\<forall>b \<in> set (take 5 (tier_H (pool_of bullets) WHAT)). 5 \<le> priority b)"
proof -
  let ?pool = "pool_of bullets"
  have "length (tier_H ?pool WHAT) + length (tier_M ?pool WHAT) =
      length (filter (\<lambda>b. category b = WHAT) ?pool)"
    by (rule tier_lengths)
  then have w: "length (filter (\<lambda>b. category b = WHAT) ?pool) = 10"
    using assms(1,2) by (simp add: tier_H_def tier_M_def)
  have l: "length ?pool = 22"
    using length_by_category [of ?pool] w assms(3,4,5) by simp
  have k: "kept_total 22 = 11"
    by (simp add: kept_total_def py_round_def Let_def)
  have b: "build_selection bullets =
      Inr \<lparr>sel_kept_total = 11, sel_targets = [(WHAT, 5), (HOW, 3), (SURE, 2), (CYDI, 1)],
           sel_selected = select_bullets ?pool [(WHAT, 5), (HOW, 3), (SURE, 2), (CYDI, 1)]\<rparr>"
    by (simp add: build_selection_def l k targets_11 Let_def)
  have h6: "length (tier_H ?pool WHAT) = 6"
    using assms(1) by (simp add: tier_H_def)
  have "select_bullets ?pool [(WHAT, 5), (HOW, 3), (SURE, 2), (CYDI, 1)] WHAT =
      take_for ?pool WHAT (int 5)"
    by (simp add: select_bullets_def)
  also have "\<dots> = take 5 (tier_H ?pool WHAT)"
    unfolding take_for_nat using h6 by simp
  finally have s: "select_bullets ?pool [(WHAT, 5), (HOW, 3), (SURE, 2), (CYDI, 1)] WHAT =
      take 5 (tier_H ?pool WHAT)" .
  have p: "\<forall>b \<in> set (take 5 (tier_H ?pool WHAT)). 5 \<le> priority b"
    using tier_H_high [of _ ?pool WHAT] by (auto dest: in_set_takeD)
  show ?thesis
    using b s h6 p by simp
qed

text \<open>The hypotheses of the three theorems hold at concrete pools.\<close>

theorem scenario_selection_witness:
  "length (filter (\<lambda>b. category b = WHAT \<and> 5 \<le> priority b) (pool_of scenario_bullets)) = 6 \<and>
   length (filter (\<lambda>b. category b = WHAT \<and> \<not> 5 \<le> priority b) (pool_of scenario_bullets)) = 4 \<and>
   length (filter (\<lambda>b. category b = HOW) (pool_of scenario_bullets)) = 6 \<and>
   length (filter (\<lambda>b. category b = SURE) (pool_of scenario_bullets)) = 4 \<and>
   length (filter (\<lambda>b. category b = CYDI) (pool_of scenario_bullets)) = 2 \<and>
   select_bullets (pool_of scenario_bullets) [(WHAT, 5), (HOW, 3), (SURE, 2), (CYDI, 1)] WHAT =
     take 5 (tier_H (pool_of scenario_bullets) WHAT) \<and>
   length (take 5 (tier_H (pool_of scenario_bullets) WHAT)) = 5"
proof -
  have h: "length (filter (\<lambda>b. category b = WHAT \<and> 5 \<le> priority b) (pool_of scenario_bullets)) = 6"
    "length (filter (\<lambda>b. category b = WHAT \<and> \<not> 5 \<le> priority b) (pool_of scenario_bullets)) = 4"
    "length (filter (\<lambda>b. category b = HOW) (pool_of scenario_bullets)) = 6"
    "length (filter (\<lambda>b. category b = SURE) (pool_of scenario_bullets)) = 4"
    "length (filter (\<lambda>b. category b = CYDI) (pool_of scenario_bullets)) = 2"
    by (simp_all add: scenario_pool)
  from scenario_selection [OF h] h show ?thesis
    by blast
qed

theorem selection_shape_witness:
  "distinct (map fst [(WHAT, 5 :: nat), (HOW, 3), (SURE, 2), (CYDI, 1)]) \<and>
   (WHAT, 5) \<in> set [(WHAT, 5 :: nat), (HOW, 3), (SURE, 2), (CYDI, 1)] \<and>
   sorted (map idx (filter (\<lambda>b. category b = WHAT) (pool_of scenario_bullets))) \<and>
   length (select_bullets (pool_of scenario_bullets)
     (map (\<lambda>(c, n). (c, int n)) [(WHAT, 5 :: nat), (HOW, 3), (SURE, 2), (CYDI, 1)]) WHAT) =
     min 5 (length (filter (\<lambda>b. category b = WHAT) (pool_of scenario_bullets))) \<and>
   filter (\<lambda>b. 5 \<le> priority b) (select_bullets (pool_of scenario_bullets)
     (map (\<lambda>(c, n). (c, int n)) [(WHAT, 5 :: nat), (HOW, 3), (SURE, 2), (CYDI, 1)]) WHAT) =
     take 5 (filter (\<lambda>b. category b = WHAT \<and> 5 \<le> priority b) (pool_of scenario_bullets))"
proof -
  let ?caps = "[(WHAT, 5 :: nat), (HOW, 3), (SURE, 2), (CYDI, 1)]"
  have h: "distinct (map fst ?caps)" "(WHAT, 5) \<in> set ?caps"
    by simp_all
  have s: "sorted (map idx (filter (\<lambda>b. category b = WHAT) (pool_of scenario_bullets)))"
    by (simp add: scenario_pool)
  from selection_shape [OF h, of "pool_of scenario_bullets"] s h show ?thesis
    unfolding Let_def by blast
qed

theorem empty_pool_selection_witness:
  "pool_of (all_bullets [scenario_item 0] [] [] []) = [] \<and>
   (\<exists>s. build_selection (all_bullets [scenario_item 0] [] [] []) = Inr s \<and>
        sel_kept_total s = 1 \<and> sel_selected s WHAT = [])"
proof -
  have h: "pool_of (all_bullets [scenario_item 0] [] [] []) = []"
    by (simp add: all_bullets_def collect_def pool_of_def scenario_item_def)
  from empty_pool_selection [OF h] h show ?thesis
    by blast
qed

end
